theory Spec2Isabelle
  imports Main "HOL-Library.Word"
begin

section \<open>The array-backed list of \<^verbatim>\<open>src/common/list.c\<close>\<close>

text \<open>
  The list stores opaque element pointers in one contiguous array and keeps a chain of
  iterators, each holding two indices into that array. Every structural change walks the
  chain and repairs the indices. The embedding follows the C code function by function.

  \<^item> \<^verbatim>\<open>unsigned int\<close> and \<^verbatim>\<open>int\<close> are 32-bit words; \<open>+\<close> and \<open>-\<close> wrap, unsigned
    comparison is \<open><\<close> on words, signed comparison goes through \<open>sint\<close>.
  \<^item> A \<^verbatim>\<open>void *\<close> element handle (\<^verbatim>\<open>Node\<close>) is a natural number, the address; \<open>0\<close> is
    \<^verbatim>\<open>NULL\<close>. A function pointer (\<^verbatim>\<open>ListDelF\<close>) is its address as well.
  \<^item> The array \<^verbatim>\<open>arr\<close> is the list of its allocated slots; the \<^verbatim>\<open>NULL\<close> array pointer is
    the empty list.
  \<^item> The iterator chain \<^verbatim>\<open>iNext\<close> is the list of the iterator records in chain order; an
    iterator handle is its place in the chain. The back pointer \<^verbatim>\<open>i->list\<close> is the list
    record the iterator is stored in.
  \<^item> The magic numbers and the mutex carry no data and are left out; \<^verbatim>\<open>xassert\<close> is compiled
    out under \<^verbatim>\<open>NDEBUG\<close> and is not part of the functions.
  \<^item> Calls of the destructor \<^verbatim>\<open>fDel\<close> are effects outside the list: a function that may call
    it returns the handles it was called on, in call order.
  \<^item> C identifiers that start with an underscore lose it: \<^verbatim>\<open>_list_grow\<close> is \<open>list_grow\<close>.
\<close>

type_synonym Node = nat
type_synonym ListDelF = nat
type_synonym uint = "32 word"
type_synonym cint = "32 word"

abbreviation (input) NULL :: nat where
  "NULL \<equiv> 0"

record listIterator =
  pos :: uint
  prev :: uint

record xlist =
  arr :: "Node list"
  iNext :: "listIterator list"
  fDel :: ListDelF
  size_l :: uint
  capacity :: uint

text \<open>The occupied slots \<^verbatim>\<open>arr[0 .. size)\<close>: the element sequence of the list.\<close>

definition elements :: "xlist \<Rightarrow> Node list" where
  "elements l = take (unat (size_l l)) (arr l)"

subsection \<open>The allocator and the C library\<close>

text \<open>
  Modelled from the spec: the allocator behind \<^verbatim>\<open>xrealloc\<close> (\<^verbatim>\<open>xmalloc.h\<close>) is an external
  collaborator that may refuse a request. An allocator is the predicate telling which slot
  counts it grants. A granted request keeps the old contents up to the new length; the
  new slots are zero. A refused request yields \<^verbatim>\<open>NULL\<close>.
\<close>

type_synonym allocator = "nat \<Rightarrow> bool"

definition list_realloc :: "allocator \<Rightarrow> Node list \<Rightarrow> nat \<Rightarrow> Node list option" where
  "list_realloc al a n =
     (if al n then Some (take n a @ replicate (n - length a) NULL) else None)"

text \<open>
  \<^verbatim>\<open>memmove(arr + d, arr + s, n * LIST_NODE_SIZE)\<close>: the \<open>n\<close> slots from \<open>s\<close> are
  copied over the \<open>n\<close> slots from \<open>d\<close>.
\<close>

definition memmove :: "Node list \<Rightarrow> nat \<Rightarrow> nat \<Rightarrow> nat \<Rightarrow> Node list" where
  "memmove a d s n = take d a @ take n (drop s a) @ drop (d + n) a"

subsection \<open>Creation and the size queries\<close>

definition list_create :: "ListDelF \<Rightarrow> xlist" where
  "list_create f = \<lparr>arr = [], iNext = [], fDel = f, size_l = 0, capacity = 0\<rparr>"

definition list_is_empty :: "xlist \<Rightarrow> bool" where
  "list_is_empty l = (size_l l = 0)"

text \<open>A \<^verbatim>\<open>List\<close> argument that may be \<^verbatim>\<open>NULL\<close> is an option.\<close>

definition list_count :: "xlist option \<Rightarrow> cint" where
  "list_count lp = (case lp of None \<Rightarrow> 0 | Some l \<Rightarrow> size_l l)"

subsection \<open>Growth and reservation\<close>

definition list_grow :: "allocator \<Rightarrow> xlist \<Rightarrow> xlist \<times> cint" where
  "list_grow al l =
     (if size_l l = capacity l then
        (let c = capacity l + (if capacity l > 1 then capacity l else 1) in
         case list_realloc al (arr l) (unat c) of
           None \<Rightarrow> (l\<lparr>capacity := c, arr := []\<rparr>, - 1)
         | Some a \<Rightarrow> (l\<lparr>capacity := c, arr := a, size_l := 1 + size_l l\<rparr>, c))
      else (l\<lparr>size_l := 1 + size_l l\<rparr>, capacity l))"

definition list_reserve :: "allocator \<Rightarrow> xlist \<Rightarrow> cint \<Rightarrow> xlist \<times> cint" where
  "list_reserve al l n =
     (if sint n \<le> sint (capacity l) then (l, - 1)
      else (case list_realloc al (arr l) (nat (sint n)) of
              None \<Rightarrow> (l\<lparr>arr := []\<rparr>, - 1)
            | Some a \<Rightarrow> (l\<lparr>arr := a, capacity := n\<rparr>, n)))"

subsection \<open>Insertion and removal at an index\<close>

text \<open>The body of the iterator loop of \<^verbatim>\<open>_list_node_create\<close>.\<close>

definition create_fix :: "uint \<Rightarrow> listIterator \<Rightarrow> listIterator" where
  "create_fix p i =
     (let i1 = (if prev i = p then i\<lparr>prev := p + 1\<rparr> else i)
      in (if pos i1 = p then i1\<lparr>pos := p + 1\<rparr> else i1))"

definition list_node_create :: "allocator \<Rightarrow> xlist \<Rightarrow> uint \<Rightarrow> Node \<Rightarrow> xlist \<times> Node" where
  "list_node_create al l p x =
     (if p > size_l l then (l, NULL)
      else (let (l1, rc) = list_grow al l in
            if sint rc < 0 then (l1, NULL)
            else (let a1 = memmove (arr l1) (unat p + 1) (unat p)
                             (unat (size_l l1 - 1) - unat p);
                      a2 = a1[unat p := x]
                  in (l1\<lparr>arr := a2, iNext := map (create_fix p) (iNext l1)\<rparr>, x))))"

text \<open>The body of the iterator loop of \<^verbatim>\<open>_list_node_destroy\<close>.\<close>

definition destroy_fix :: "uint \<Rightarrow> listIterator \<Rightarrow> listIterator" where
  "destroy_fix p i =
     (if pos i = p + 1 then i\<lparr>pos := p, prev := p\<rparr>
      else if prev i = p + 1 then i\<lparr>prev := p\<rparr>
      else i)"

definition list_node_destroy :: "xlist \<Rightarrow> uint \<Rightarrow> xlist \<times> Node" where
  "list_node_destroy l p =
     (if p \<ge> size_l l then (l, NULL)
      else (let v = arr l ! unat p;
                a1 = memmove (arr l) (unat p) (unat p + 1)
                       (unat (size_l l) - (unat p + 1));
                sz = word_of_int (max 0 (sint (size_l l) - 1))
            in (l\<lparr>arr := a1, size_l := sz, iNext := map (destroy_fix p) (iNext l)\<rparr>, v)))"

definition list_pop_locked :: "xlist \<Rightarrow> xlist \<times> Node" where
  "list_pop_locked l = list_node_destroy l 0"

definition list_append_locked :: "allocator \<Rightarrow> xlist \<Rightarrow> Node \<Rightarrow> xlist \<times> Node" where
  "list_append_locked al l x = list_node_create al l (size_l l) x"

definition list_append :: "allocator \<Rightarrow> xlist \<Rightarrow> Node \<Rightarrow> xlist \<times> Node" where
  "list_append al l x = list_append_locked al l x"

definition list_prepend :: "allocator \<Rightarrow> xlist \<Rightarrow> Node \<Rightarrow> xlist \<times> Node" where
  "list_prepend al l x = list_node_create al l 0 x"


definition list_enqueue :: "allocator \<Rightarrow> xlist \<Rightarrow> Node \<Rightarrow> xlist \<times> Node" where
  "list_enqueue al l x = list_node_create al l (size_l l) x"

definition list_pop :: "xlist \<Rightarrow> xlist \<times> Node" where
  "list_pop l = list_pop_locked l"

definition list_dequeue :: "xlist \<Rightarrow> xlist \<times> Node" where
  "list_dequeue l = list_node_destroy l 0"


definition list_peek_last :: "xlist \<Rightarrow> Node" where
  "list_peek_last l = (if size_l l > 0 then arr l ! unat (size_l l - 1) else NULL)"

subsection \<open>Iterators\<close>

definition list_iterator_create :: "xlist \<Rightarrow> xlist" where
  "list_iterator_create l = l\<lparr>iNext := \<lparr>pos = 0, prev = 0\<rparr> # iNext l\<rparr>"

definition list_iterator_reset :: "xlist \<Rightarrow> nat \<Rightarrow> xlist" where
  "list_iterator_reset l j = l\<lparr>iNext := (iNext l)[j := \<lparr>pos = 0, prev = 0\<rparr>]\<rparr>"

definition list_next_locked :: "xlist \<Rightarrow> listIterator \<Rightarrow> listIterator \<times> Node" where
  "list_next_locked l i =
     (let i1 = (if prev i \<noteq> pos i then i\<lparr>prev := prev i + 1\<rparr> else i)
      in if pos i1 < size_l l
         then (i1\<lparr>pos := pos i1 + 1\<rparr>, arr l ! unat (pos i1))
         else (i1, NULL))"

text \<open>
  The public iterator operations take the list the iterator is bound to and the
  iterator's place \<open>j\<close> in its chain.
\<close>

definition list_next :: "xlist \<Rightarrow> nat \<Rightarrow> xlist \<times> Node" where
  "list_next l j =
     (let (i', rc) = list_next_locked l (iNext l ! j)
      in (l\<lparr>iNext := (iNext l)[j := i']\<rparr>, rc))"

definition list_peek_next :: "xlist \<Rightarrow> nat \<Rightarrow> Node" where
  "list_peek_next l j =
     (let i = iNext l ! j in if pos i < size_l l then arr l ! unat (pos i) else NULL)"

definition list_insert :: "allocator \<Rightarrow> xlist \<Rightarrow> nat \<Rightarrow> Node \<Rightarrow> xlist \<times> Node" where
  "list_insert al l j x = list_node_create al l (prev (iNext l ! j)) x"

definition list_remove :: "xlist \<Rightarrow> nat \<Rightarrow> xlist \<times> Node" where
  "list_remove l j =
     (let i = iNext l ! j
      in if prev i \<noteq> pos i then list_node_destroy l (prev i) else (l, NULL))"

definition list_delete_item :: "xlist \<Rightarrow> nat \<Rightarrow> xlist \<times> cint \<times> Node list" where
  "list_delete_item l j =
     (let (l', v) = list_remove l j
      in if v \<noteq> NULL then (l', 1, if fDel l' \<noteq> NULL then [v] else [])
         else (l', 0, []))"

subsection \<open>Removal by predicate and by identity\<close>

text \<open>
  A \<^verbatim>\<open>ListFindF\<close> callback is a function of the element and the key to a C truth
  value. The loops below stop because every turn either advances \<open>i\<close> below the size
  or removes an element, which lowers the size.
\<close>

lemma word_inc_unat: "(i::uint) < m \<Longrightarrow> unat (i + 1) = Suc (unat i)"
  by (metis (no_types, lifting) add.commute inc_i linorder_not_less
    order_less_irrefl unatSuc unat_plus_simple word_less_1)

lemma destroy_size_val:
  "(p::uint) < s \<Longrightarrow> (word_of_int (max 0 (sint s - 1)) :: uint) < s"
  by (metis interval_class.less_eq_dec_imp_less max_def of_int_0 of_int_sint
    scast_id wi_hom_pred word_le_less_eq word_pred_m1 word_zero_le)

lemma destroy_size_less:
  assumes "(l', v) = list_node_destroy l p" and "unat p < unat (size_l l)"
  shows "unat (size_l l') < unat (size_l l)"
proof -
  from assms(2) have lt: "p < size_l l"
    by (simp add: word_less_nat_alt)
  then have "\<not> size_l l \<le> p"
    by simp
  with assms(1) have "size_l l' = word_of_int (max 0 (sint (size_l l) - 1))"
    by (simp add: list_node_destroy_def Let_def)
  with destroy_size_val [OF lt] show ?thesis
    by (simp add: word_less_nat_alt)
qed

function remove_first_loop ::
  "(Node \<Rightarrow> Node \<Rightarrow> cint) \<Rightarrow> Node \<Rightarrow> xlist \<Rightarrow> uint \<Rightarrow> xlist \<times> Node" where
  "remove_first_loop f key l i =
     (if i < size_l l then
        (if f (arr l ! unat i) key \<noteq> 0 then list_node_destroy l i
         else remove_first_loop f key l (i + 1))
      else (l, NULL))"
  by pat_completeness auto
termination
  by (relation "measure (\<lambda>(f, key, l, i). unat (size_l l) - unat i)")
     (auto simp: word_less_nat_alt word_inc_unat)

declare remove_first_loop.simps [simp del]

definition list_remove_first :: "xlist \<Rightarrow> (Node \<Rightarrow> Node \<Rightarrow> cint) \<Rightarrow> Node \<Rightarrow> xlist \<times> Node" where
  "list_remove_first l f key = remove_first_loop f key l 0"

function delete_all_loop ::
  "(Node \<Rightarrow> Node \<Rightarrow> cint) \<Rightarrow> Node \<Rightarrow> xlist \<Rightarrow> uint \<Rightarrow> cint \<Rightarrow> Node list
     \<Rightarrow> xlist \<times> cint \<times> Node list" where
  "delete_all_loop f key l i n calls =
     (if i < size_l l then
        (if f (arr l ! unat i) key \<noteq> 0 then
           (case list_node_destroy l i of (l', v) \<Rightarrow>
              if v \<noteq> NULL
              then delete_all_loop f key l' i (n + 1)
                     (if fDel l' \<noteq> NULL then calls @ [v] else calls)
              else delete_all_loop f key l' i n calls)
         else delete_all_loop f key l (i + 1) n calls)
      else (l, n, calls))"
  by pat_completeness auto
termination
  apply (relation "measure (\<lambda>(f, key, l, i, n, calls). unat (size_l l) - unat i)")
     apply simp
    apply (auto simp: word_less_nat_alt word_inc_unat dest: destroy_size_less)
  done

declare delete_all_loop.simps [simp del]

definition list_delete_all :: "xlist \<Rightarrow> (Node \<Rightarrow> Node \<Rightarrow> cint) \<Rightarrow> Node \<Rightarrow> xlist \<times> cint \<times> Node list" where
  "list_delete_all l f key = delete_all_loop f key l 0 0 []"

function delete_ptr_loop :: "Node \<Rightarrow> xlist \<Rightarrow> uint \<Rightarrow> xlist \<times> cint \<times> Node list" where
  "delete_ptr_loop key l i =
     (if i < size_l l then
        (if arr l ! unat i = key then
           (case list_node_destroy l i of (l', v) \<Rightarrow>
              if v \<noteq> NULL then (l', 1, if fDel l' \<noteq> NULL then [v] else [])
              else delete_ptr_loop key l' i)
         else delete_ptr_loop key l (i + 1))
      else (l, 0, []))"
  by pat_completeness auto
termination
  apply (relation "measure (\<lambda>(key, l, i). unat (size_l l) - unat i)")
     apply simp
    apply (auto simp: word_less_nat_alt word_inc_unat dest: destroy_size_less)
  done

declare delete_ptr_loop.simps [simp del]

definition list_delete_ptr :: "xlist \<Rightarrow> Node \<Rightarrow> xlist \<times> cint \<times> Node list" where
  "list_delete_ptr l key = delete_ptr_loop key l 0"

text \<open>
  A list state reached from another by removals alone: each step is one call of
  \<^verbatim>\<open>_list_node_destroy\<close> at an index below the size.
\<close>

inductive removals :: "xlist \<Rightarrow> xlist \<Rightarrow> bool" where
  none: "removals l l"
| step: "k < size_l l \<Longrightarrow> removals (fst (list_node_destroy l k)) l' \<Longrightarrow> removals l l'"

subsection \<open>Flush, sort and flip\<close>

text \<open>The loop of \<^verbatim>\<open>list_flush\<close> over the slots: one destructor call and one count each.\<close>

fun flush_loop :: "Node list \<Rightarrow> cint \<Rightarrow> Node list \<Rightarrow> cint \<times> Node list" where
  "flush_loop [] n calls = (n, calls)"
| "flush_loop (v # vs) n calls = flush_loop vs (n + 1) (calls @ [v])"

definition reset_all :: "listIterator list \<Rightarrow> listIterator list" where
  "reset_all is = map (\<lambda>i. i\<lparr>pos := 0, prev := 0\<rparr>) is"

definition list_flush :: "xlist \<Rightarrow> xlist \<times> cint \<times> Node list" where
  "list_flush l =
     (let (n, calls) = (if fDel l \<noteq> NULL then flush_loop (elements l) 0 [] else (0, []))
      in (l\<lparr>size_l := 0, iNext := reset_all (iNext l)\<rparr>, n, calls))"

text \<open>
  \<^verbatim>\<open>qsort\<close> is the C library's; it is a parameter \<open>qs\<close>, the function from the comparator
  and the slots handed over to the slots it leaves.
\<close>

definition list_sort ::
  "((Node \<Rightarrow> Node \<Rightarrow> cint) \<Rightarrow> Node list \<Rightarrow> Node list) \<Rightarrow> xlist \<Rightarrow> (Node \<Rightarrow> Node \<Rightarrow> cint) \<Rightarrow> xlist" where
  "list_sort qs l f =
     (if size_l l \<le> 1 then l
      else l\<lparr>arr := qs f (elements l) @ drop (unat (size_l l)) (arr l),
             iNext := reset_all (iNext l)\<rparr>)"

function flip_loop :: "Node list \<Rightarrow> uint \<Rightarrow> uint \<Rightarrow> Node list" where
  "flip_loop a sz index =
     (if index < sz div 2 then
        (let temp = a ! unat index;
             a1 = a[unat index := a ! unat (sz - 1 - index)];
             a2 = a1[unat (sz - 1 - index) := temp]
         in flip_loop a2 sz (index + 1))
      else a)"
  by pat_completeness auto
termination
  by (relation "measure (\<lambda>(a, sz, index). unat (sz div 2) - unat index)")
     (auto simp: word_less_nat_alt word_inc_unat)

declare flip_loop.simps [simp del]

definition list_flip :: "xlist \<Rightarrow> xlist" where
  "list_flip l =
     (if size_l l \<le> 1 then l
      else l\<lparr>arr := flip_loop (arr l) (size_l l) 0, iNext := reset_all (iNext l)\<rparr>)"

subsection \<open>Copy and transfer\<close>

definition memcpy :: "Node list \<Rightarrow> Node list \<Rightarrow> nat \<Rightarrow> Node list" where
  "memcpy d s n = take n s @ drop n d"

definition list_shallow_copy :: "allocator \<Rightarrow> xlist \<Rightarrow> xlist option" where
  "list_shallow_copy al l =
     (let m = list_create NULL;
          (m1, rc) = list_reserve al m (size_l l)
      in if sint rc < 0 then None
         else Some (m1\<lparr>size_l := size_l l,
                       arr := memcpy (arr m1) (arr l) (unat (size_l l))\<rparr>))"

function transfer_loop ::
  "allocator \<Rightarrow> xlist \<Rightarrow> xlist \<Rightarrow> cint \<Rightarrow> cint \<Rightarrow> xlist \<times> xlist \<times> cint" where
  "transfer_loop al l sub max_n n =
     (if max_n = 0 \<or> sint n \<le> sint max_n then
        (case list_pop sub of (sub', v) \<Rightarrow>
           if v \<noteq> NULL
           then transfer_loop al (fst (list_append al l v)) sub' max_n (n + 1)
           else (l, sub', n))
      else (l, sub, n))"
  by pat_completeness auto
termination
proof (relation "measure (\<lambda>(al, l, sub, max_n, n). unat (size_l sub))")
  show "wf (measure (\<lambda>(al, l, sub, max_n, n). unat (size_l sub)))"
    by simp
next
  fix al :: allocator and l sub :: xlist and max_n n :: cint and x :: "xlist \<times> Node"
    and sub' :: xlist and v :: Node
  assume pop: "(sub', v) = list_pop sub" and v: "v \<noteq> NULL"
  have "0 < size_l sub"
  proof (rule ccontr)
    assume "\<not> 0 < size_l sub"
    then have "size_l sub = 0"
      by (simp add: word_gt_0)
    with pop have "v = NULL"
      by (simp add: list_pop_def list_pop_locked_def list_node_destroy_def)
    with v show False by simp
  qed
  then have "unat (0::uint) < unat (size_l sub)"
    by (simp add: word_less_nat_alt)
  moreover from pop have "(sub', v) = list_node_destroy sub 0"
    by (simp add: list_pop_def list_pop_locked_def)
  ultimately have "unat (size_l sub') < unat (size_l sub)"
    by (rule destroy_size_less [rotated])
  then show "((al, fst (list_append al l v), sub', max_n, n + 1), (al, l, sub, max_n, n))
       \<in> measure (\<lambda>(al, l, sub, max_n, n). unat (size_l sub))"
    by simp
qed

declare transfer_loop.simps [simp del]

definition list_transfer_max :: "allocator \<Rightarrow> xlist \<Rightarrow> xlist \<Rightarrow> cint \<Rightarrow> xlist \<times> xlist \<times> cint" where
  "list_transfer_max al l sub max_n = transfer_loop al l sub max_n 0"

definition list_transfer :: "allocator \<Rightarrow> xlist \<Rightarrow> xlist \<Rightarrow> xlist \<times> xlist \<times> cint" where
  "list_transfer al l sub = list_transfer_max al l sub 0"

text \<open>
  The number of elements the loop of \<^verbatim>\<open>list_transfer_max\<close> still moves when it stands at
  count \<open>n\<close> with a positive \<open>max\<close>: it runs while \<^verbatim>\<open>n <= max\<close> and the source is not
  empty.
\<close>

definition moved :: "xlist \<Rightarrow> cint \<Rightarrow> cint \<Rightarrow> nat" where
  "moved sub max_n n = min (length (elements sub)) (nat (sint max_n + 1 - sint n))"

section \<open>Well-formed lists and example states\<close>

text \<open>
  A list is well formed when its occupied slots fit the allocated block and the block has
  the slot count the \<^verbatim>\<open>capacity\<close> field records.
\<close>

definition list_ok :: "xlist \<Rightarrow> bool" where
  "list_ok l \<longleftrightarrow> unat (size_l l) \<le> unat (capacity l) \<and> length (arr l) = unat (capacity l)"

text \<open>
  The bounds of the iterator at place \<open>j\<close> of the chain: the last yielded index is at
  most the next index, and the next index is at most the size.
\<close>

definition iter_ok :: "xlist \<Rightarrow> nat \<Rightarrow> bool" where
  "iter_ok l j \<longleftrightarrow> j < length (iNext l) \<and>
     prev (iNext l ! j) \<le> pos (iNext l ! j) \<and> pos (iNext l ! j) \<le> size_l l"

text \<open>
  The list \<open>[10, 20, 30]\<close> in a block of four slots with three iterators: one that has
  yielded the elements 0 and 1, one that has yielded all three, and a fresh one.
\<close>

definition abc_list :: xlist where
  "abc_list = \<lparr>arr = [10, 20, 30, NULL],
      iNext = [\<lparr>pos = 2, prev = 1\<rparr>, \<lparr>pos = 3, prev = 2\<rparr>, \<lparr>pos = 0, prev = 0\<rparr>],
      fDel = NULL, size_l = 3, capacity = 4\<rparr>"

text \<open>
  A list of one element whose iterator has yielded it, and stand-ins for \<^verbatim>\<open>qsort\<close> and
  a comparator where their results do not matter.
\<close>

definition one_list :: xlist where
  "one_list = \<lparr>arr = [10], iNext = [\<lparr>pos = 1, prev = 0\<rparr>], fDel = NULL,
      size_l = 1, capacity = 1\<rparr>"

definition qs_id :: "(Node \<Rightarrow> Node \<Rightarrow> cint) \<Rightarrow> Node list \<Rightarrow> Node list" where
  "qs_id f xs = xs"

definition cmp_zero :: "Node \<Rightarrow> Node \<Rightarrow> cint" where
  "cmp_zero x y = 0"

text \<open>A full list of one element with a fresh iterator.\<close>

definition full_list :: xlist where
  "full_list = \<lparr>arr = [10], iNext = [\<lparr>pos = 0, prev = 0\<rparr>], fDel = NULL,
      size_l = 1, capacity = 1\<rparr>"

text \<open>The source list \<open>[x, y, z]\<close> of the transfer scenario, with the handles 1, 2, 3.\<close>

definition xyz_list :: xlist where
  "xyz_list = \<lparr>arr = [1, 2, 3, NULL], iNext = [], fDel = NULL, size_l = 3, capacity = 4\<rparr>"

text \<open>The allocator that grants every request, and the one that refuses every request.\<close>

definition al_all :: allocator where
  "al_all n = True"

definition al_none :: allocator where
  "al_none n = False"

text \<open>
  States reached through public calls only: \<open>[10, 20, 30, 40]\<close> built by four appends on
  a new list; the same list after an iterator was created and advanced four times, to
  the end; and that list after two pops.
\<close>

definition four_list :: xlist where
  "four_list =
     fst (list_append al_all (fst (list_append al_all (fst (list_append al_all
       (fst (list_append al_all (list_create NULL) 10)) 20)) 30)) 40)"

definition walked_list :: xlist where
  "walked_list =
     fst (list_next (fst (list_next (fst (list_next (fst (list_next
       (list_iterator_create four_list) 0)) 0)) 0)) 0)"

definition popped_list :: xlist where
  "popped_list = fst (list_pop (fst (list_pop walked_list)))"

section \<open>Word arithmetic of the indices\<close>

lemma word_below_not_succ: "(k::uint) < m \<Longrightarrow> x < k \<Longrightarrow> x \<noteq> k + 1"
proof
  assume km: "k < m" and xk: "x < k" and eq: "x = k + 1"
  from km have "unat (k + 1) = Suc (unat k)"
    by (rule word_inc_unat)
  with eq have "unat x = Suc (unat k)"
    by simp
  moreover from xk have "unat x < unat k"
    by (simp add: word_less_nat_alt)
  ultimately show False
    by simp
qed

lemma int_unat_small: "unat (w::uint) < 2 ^ 31 \<Longrightarrow> int (unat w) < 2 ^ 31"
proof -
  assume a: "unat w < 2 ^ 31"
  have "int (unat w) < int (2 ^ 31)"
    using a by (simp only: of_nat_less_iff)
  also have "int (2 ^ 31) = 2 ^ 31"
    by (simp only: of_nat_power of_nat_numeral)
  finally show ?thesis .
qed

lemma sint_small: "unat (w::uint) < 2 ^ 31 \<Longrightarrow> sint w = int (unat w)"
proof -
  assume "unat w < 2 ^ 31"
  then have "int (unat w) < 2 ^ 31"
    by (rule int_unat_small)
  moreover have "- (2 ^ 31) \<le> int (unat w)"
  proof -
    have "- (2 ^ 31) \<le> (0::int)" by simp
    also have "0 \<le> int (unat w)" by (rule of_nat_0_le_iff)
    finally show ?thesis .
  qed
  ultimately have "signed_take_bit 31 (int (unat w)) = int (unat w)"
    by (rule signed_take_bit_int_eq_self [rotated])
  then show ?thesis
    by (simp add: sint_uint)
qed

section \<open>The array under growth, insertion and removal\<close>

text \<open>Sums of indices below \<open>2^31\<close> do not wrap.\<close>

lemma unat_add_small:
  "unat (a::uint) + unat b < 2 ^ 32 \<Longrightarrow> unat (a + b) = unat a + unat b"
  by (simp add: unat_word_ariths)

lemma unat_succ_small: "unat (w::uint) < 2 ^ 31 \<Longrightarrow> unat (1 + w) = Suc (unat w)"
  using unat_add_small [of 1 w] by simp

lemma unat_double_small: "unat (w::uint) < 2 ^ 31 \<Longrightarrow> unat (w + w) = unat w + unat w"
  using unat_add_small [of w w] by simp

lemma grow_fields:
  "list_grow al l = (l1, rc) \<Longrightarrow> iNext l1 = iNext l \<and> fDel l1 = fDel l"
  by (auto simp: list_grow_def Let_def split: if_splits option.splits)

lemma grow_size:
  "list_grow al l = (l1, rc) \<Longrightarrow> \<not> sint rc < 0 \<Longrightarrow> size_l l1 = 1 + size_l l"
  by (auto simp: list_grow_def Let_def split: if_splits option.splits)

lemma grow_fail_size:
  "list_grow al l = (l1, rc) \<Longrightarrow> sint rc < 0 \<Longrightarrow> size_l l1 = size_l l \<or> size_l l1 = 1 + size_l l"
  by (auto simp: list_grow_def Let_def split: if_splits option.splits)

lemma grow_ok:
  assumes g: "list_grow al l = (l1, rc)" and pos: "\<not> sint rc < 0"
    and ok: "list_ok l" and small: "unat (size_l l) < 2 ^ 31"
  shows "list_ok l1 \<and> take (unat (size_l l)) (arr l1) = elements l \<and>
     unat (size_l l1) = Suc (unat (size_l l))"
proof (cases "size_l l = capacity l")
  case False
  with ok have lt: "unat (size_l l) < unat (capacity l)"
    by (auto simp: list_ok_def word_unat_eq_iff)
  from False g have l1: "l1 = l\<lparr>size_l := 1 + size_l l\<rparr>"
    by (simp add: list_grow_def)
  from lt ok unat_succ_small [OF small] show ?thesis
    by (simp add: l1 list_ok_def elements_def)
next
  case True
  define c where "c = capacity l + (if capacity l > 1 then capacity l else 1)"
  from True small have csmall: "unat (capacity l) < 2 ^ 31"
    by simp
  have cval: "unat c = unat (capacity l) + (if capacity l > 1 then unat (capacity l) else 1)"
    using csmall unat_double_small [OF csmall] unat_succ_small [OF csmall]
    by (simp add: c_def add.commute)
  from g pos True obtain a where
    re: "list_realloc al (arr l) (unat c) = Some a" and
    l1: "l1 = l\<lparr>capacity := c, arr := a, size_l := 1 + size_l l\<rparr>"
    by (auto simp: list_grow_def Let_def c_def split: option.splits)
  from re have a: "a = take (unat c) (arr l) @ replicate (unat c - length (arr l)) NULL"
    by (simp add: list_realloc_def split: if_splits)
  from ok have len: "length (arr l) = unat (capacity l)"
    by (simp add: list_ok_def)
  have le: "unat (capacity l) < unat c"
    using cval by (simp add: word_less_nat_alt split: if_splits)
  have lena: "length a = unat c"
    using le len by (simp add: a)
  have tk: "take (unat (size_l l)) a = take (unat (size_l l)) (arr l)"
    using le len True by (simp add: a)
  from lena tk le True unat_succ_small [OF small] show ?thesis
    by (simp add: l1 list_ok_def elements_def)
qed

text \<open>What the two \<^verbatim>\<open>memmove\<close> calls do to the occupied slots.\<close>

lemma sint_nonneg_small: "unat (w::uint) < 2 ^ 31 \<Longrightarrow> \<not> sint w < 0"
  using sint_small [of w] by simp

lemma grow_granted:
  assumes g: "list_grow al l = (l1, rc)" and al: "\<And>n. al n"
    and ok: "list_ok l" and cap: "unat (capacity l) < 2 ^ 30"
  shows "\<not> sint rc < 0 \<and> unat (capacity l1) \<le> max (unat (capacity l)) (max 1 (2 * unat (size_l l)))"
proof (cases "size_l l = capacity l")
  case False
  with g have "rc = capacity l" and "capacity l1 = capacity l"
    by (auto simp: list_grow_def)
  with cap sint_nonneg_small [of "capacity l"] show ?thesis
    by simp
next
  case True
  define c where "c = capacity l + (if capacity l > 1 then capacity l else 1)"
  from cap have c31: "unat (capacity l) < 2 ^ 31"
    by simp
  have cval: "unat c = unat (capacity l) + (if capacity l > 1 then unat (capacity l) else 1)"
    using unat_double_small [OF c31] unat_succ_small [OF c31]
    by (simp add: c_def add.commute)
  from g al True have "rc = c" and c1: "capacity l1 = c"
    by (auto simp: list_grow_def list_realloc_def Let_def c_def)
  moreover from cval cap have "unat c < 2 ^ 31"
    by (simp split: if_splits)
  moreover from cval True have "unat c \<le> max (unat (capacity l)) (max 1 (2 * unat (size_l l)))"
    by (auto simp: word_less_nat_alt split: if_splits)
  ultimately show ?thesis
    using sint_nonneg_small [of c] by simp
qed

lemma take_exact_append: "length xs = n \<Longrightarrow> take n (xs @ ys) = xs"
  by simp

lemma insert_slots:
  assumes "q \<le> s" and "s < length a"
  shows "take (Suc s) ((memmove a (Suc q) q (s - q))[q := x]) =
     take q (take s a) @ x # drop q (take s a)"
proof -
  from assms have q: "q < length a" by simp
  define front where "front = take q a @ [x] @ take (s - q) (drop q a)"
  have "(take (Suc q) a)[q := x] = take q a @ [x]"
    using q by (simp add: take_Suc_conv_app_nth list_update_append)
  then have "(memmove a (Suc q) q (s - q))[q := x] = front @ drop (Suc s) a"
    using assms q by (simp add: memmove_def list_update_append front_def)
  moreover have "length front = Suc s"
    using assms q by (simp add: front_def)
  ultimately have "take (Suc s) ((memmove a (Suc q) q (s - q))[q := x]) = front"
    by (simp only: take_exact_append)
  moreover have "take q (take s a) = take q a"
    using assms by (simp add: min_def)
  moreover have "drop q (take s a) = take (s - q) (drop q a)"
    by (simp add: drop_take)
  ultimately show ?thesis
    by (simp add: front_def)
qed

lemma insert_slots_length:
  assumes "q \<le> s" and "s < length a"
  shows "length ((memmove a (Suc q) q (s - q))[q := x]) = length a"
  using assms by (simp add: memmove_def)

lemma remove_slots:
  assumes "q < s" and "s \<le> length a"
  shows "take (s - 1) (memmove a q (Suc q) (s - Suc q)) =
     take q (take s a) @ drop (Suc q) (take s a)"
proof -
  define front where "front = take q a @ take (s - Suc q) (drop (Suc q) a)"
  have "memmove a q (Suc q) (s - Suc q) = front @ drop (s - 1) a"
    using assms by (simp add: memmove_def front_def)
  moreover have "length front = s - 1"
    using assms by (simp add: front_def)
  ultimately have "take (s - 1) (memmove a q (Suc q) (s - Suc q)) = front"
    by (simp only: take_exact_append)
  moreover have "drop (Suc q) (take s a) = take (s - Suc q) (drop (Suc q) a)"
    by (simp add: drop_take)
  moreover have "take q (take s a) = take q a"
    using assms by (simp add: min_def)
  ultimately show ?thesis
    by (simp add: front_def)
qed

lemma remove_slots_length:
  assumes "q < s" and "s \<le> length a"
  shows "length (memmove a q (Suc q) (s - Suc q)) = length a"
  using assms by (simp add: memmove_def)

text \<open>
  A successful insertion puts the handle at index \<open>p\<close> of the element sequence, a
  removal takes the element at index \<open>p\<close> out; both keep the list well formed.
\<close>

lemma node_create_success:
  assumes c: "list_node_create al l p x = (l', v)" and v: "v \<noteq> NULL"
  shows "v = x \<and> p \<le> size_l l \<and> iNext l' = map (create_fix p) (iNext l) \<and>
     size_l l' = 1 + size_l l \<and> fDel l' = fDel l"
proof -
  obtain l1 rc where g: "list_grow al l = (l1, rc)"
    by (cases "list_grow al l")
  from c v have p: "p \<le> size_l l"
    by (auto simp: list_node_create_def split: if_splits)
  with c v g have rc: "\<not> sint rc < 0"
    by (auto simp: list_node_create_def split: if_splits)
  from c p g rc have l': "l' = l1\<lparr>arr := (memmove (arr l1) (unat p + 1) (unat p)
         (unat (size_l l1 - 1) - unat p))[unat p := x],
       iNext := map (create_fix p) (iNext l1)\<rparr>" and vx: "v = x"
    by (auto simp: list_node_create_def Let_def split: if_splits)
  from grow_fields [OF g] grow_size [OF g rc] p vx show ?thesis
    by (simp add: l')
qed

lemma node_create_elements:
  assumes c: "list_node_create al l p x = (l', v)" and v: "v \<noteq> NULL"
    and ok: "list_ok l" and small: "unat (size_l l) < 2 ^ 31"
  shows "list_ok l' \<and>
     elements l' = take (unat p) (elements l) @ x # drop (unat p) (elements l)"
proof -
  obtain l1 rc where g: "list_grow al l = (l1, rc)"
    by (cases "list_grow al l")
  from c v have p: "p \<le> size_l l"
    by (auto simp: list_node_create_def split: if_splits)
  with c v g have rc: "\<not> sint rc < 0"
    by (auto simp: list_node_create_def split: if_splits)
  from c p g rc have l': "l' = l1\<lparr>arr := (memmove (arr l1) (unat p + 1) (unat p)
         (unat (size_l l1 - 1) - unat p))[unat p := x],
       iNext := map (create_fix p) (iNext l1)\<rparr>"
    by (auto simp: list_node_create_def Let_def split: if_splits)
  from grow_ok [OF g rc ok small] have ok1: "list_ok l1"
    and tk: "take (unat (size_l l)) (arr l1) = elements l"
    and sz: "unat (size_l l1) = Suc (unat (size_l l))"
    by simp_all
  from grow_size [OF g rc] have sz1: "size_l l1 - 1 = size_l l"
    by simp
  then have arr': "arr l' = (memmove (arr l1) (Suc (unat p)) (unat p)
       (unat (size_l l) - unat p))[unat p := x]"
    by (simp add: l')
  from p have q: "unat p \<le> unat (size_l l)"
    by (simp add: word_le_nat_alt)
  from ok1 sz have s: "unat (size_l l) < length (arr l1)"
    by (simp add: list_ok_def)
  have "elements l' = take (Suc (unat (size_l l))) (arr l')"
    by (simp add: elements_def l' sz)
  also have "\<dots> = take (unat p) (take (unat (size_l l)) (arr l1)) @
      x # drop (unat p) (take (unat (size_l l)) (arr l1))"
    unfolding arr' by (rule insert_slots [OF q s])
  finally have els: "elements l' = take (unat p) (elements l) @ x # drop (unat p) (elements l)"
    by (simp only: tk)
  from ok1 insert_slots_length [OF q s, of x] have "list_ok l'"
    by (simp add: list_ok_def l' sz1)
  with els show ?thesis
    by simp
qed

lemma destroy_size_small:
  assumes p: "p < size_l l" and small: "unat (size_l l) < 2 ^ 31"
  shows "unat (size_l (fst (list_node_destroy l p))) = unat (size_l l) - 1"
proof -
  from p have np: "\<not> size_l l \<le> p"
    by simp
  then have l': "size_l (fst (list_node_destroy l p)) = word_of_int (max 0 (sint (size_l l) - 1))"
    by (simp add: list_node_destroy_def Let_def)
  define n where "n = unat (size_l l)"
  from p have n1: "1 \<le> n"
    by (simp add: n_def word_less_nat_alt)
  from small have n31: "n < 2 ^ 31"
    by (simp add: n_def)
  from sint_small [OF small] have "sint (size_l l) = int n"
    by (simp only: n_def)
  with n1 have "max 0 (sint (size_l l) - 1) = int (n - 1)"
    by (simp add: of_nat_diff)
  then have "size_l (fst (list_node_destroy l p)) = of_nat (n - 1)"
    by (simp add: l')
  moreover from n31 have "(n - 1) mod 2 ^ LENGTH(32) = n - 1"
    by simp
  ultimately have "unat (size_l (fst (list_node_destroy l p))) = n - 1"
    by (simp only: unat_of_nat)
  then show ?thesis
    by (simp only: n_def)
qed

lemma node_destroy_elements:
  assumes d: "list_node_destroy l p = (l', v)" and p: "p < size_l l"
    and ok: "list_ok l" and small: "unat (size_l l) < 2 ^ 31"
  shows "list_ok l' \<and> v = elements l ! unat p \<and>
     elements l' = take (unat p) (elements l) @ drop (Suc (unat p)) (elements l) \<and>
     unat (size_l l') = unat (size_l l) - 1"
proof -
  from p have np: "\<not> size_l l \<le> p"
    by simp
  from d np have l': "l' = l\<lparr>arr := memmove (arr l) (unat p) (unat p + 1)
         (unat (size_l l) - (unat p + 1)),
       size_l := word_of_int (max 0 (sint (size_l l) - 1)),
       iNext := map (destroy_fix p) (iNext l)\<rparr>" and v: "v = arr l ! unat p"
    by (simp_all add: list_node_destroy_def Let_def)
  from p have q: "unat p < unat (size_l l)"
    by (simp add: word_less_nat_alt)
  from ok have s: "unat (size_l l) \<le> length (arr l)"
    by (simp add: list_ok_def)
  from destroy_size_small [OF p small] d have sz: "unat (size_l l') = unat (size_l l) - 1"
    by simp
  have "elements l' = take (unat (size_l l) - 1)
      (memmove (arr l) (unat p) (Suc (unat p)) (unat (size_l l) - Suc (unat p)))"
    by (simp add: elements_def sz) (simp add: l')
  also have "\<dots> = take (unat p) (take (unat (size_l l)) (arr l)) @
      drop (Suc (unat p)) (take (unat (size_l l)) (arr l))"
    by (rule remove_slots [OF q s])
  finally have els: "elements l' = take (unat p) (elements l) @ drop (Suc (unat p)) (elements l)"
    by (simp only: elements_def)
  from q have vel: "v = elements l ! unat p"
    by (simp add: v elements_def)
  have cap: "capacity l' = capacity l"
    by (simp add: l')
  from remove_slots_length [OF q s] have len: "length (arr l') = length (arr l)"
    by (simp add: l')
  from ok have "unat (size_l l) - 1 \<le> unat (capacity l) \<and> length (arr l) = unat (capacity l)"
    by (auto simp: list_ok_def)
  then have "list_ok l'"
    by (simp only: list_ok_def sz cap len)
  with els vel sz show ?thesis
    by simp
qed

section \<open>Removal repairs the iterators\<close>

lemma destroy_iNext:
  "k < size_l l \<Longrightarrow> iNext (fst (list_node_destroy l k)) = map (destroy_fix k) (iNext l)"
  by (simp add: list_node_destroy_def Let_def not_le [symmetric] del: not_le)

text \<open>
  Every removal goes through \<^verbatim>\<open>_list_node_destroy\<close>: \<^verbatim>\<open>list_pop\<close> and \<^verbatim>\<open>list_dequeue\<close>
  remove index 0, \<^verbatim>\<open>list_remove\<close> removes the index the iterator yielded last, and the
  loops of \<^verbatim>\<open>list_remove_first\<close>, \<^verbatim>\<open>list_delete_all\<close> and \<^verbatim>\<open>list_delete_ptr\<close> call it
  at the index they stand on.
\<close>

lemma list_pop_destroy: "list_pop l = list_node_destroy l 0"
  by (simp add: list_pop_def list_pop_locked_def)

lemma list_dequeue_destroy: "list_dequeue l = list_node_destroy l 0"
  by (simp add: list_dequeue_def)

lemma list_remove_destroy:
  "prev (iNext l ! j) \<noteq> pos (iNext l ! j) \<Longrightarrow>
   list_remove l j = list_node_destroy l (prev (iNext l ! j))"
  by (simp add: list_remove_def Let_def)

lemma remove_first_loop_destroy:
  "remove_first_loop f key l i = (l, NULL) \<or>
   (\<exists>k. k < size_l l \<and> remove_first_loop f key l i = list_node_destroy l k)"
proof (induction f key l i rule: remove_first_loop.induct)
  case (1 f key l i)
  show ?case
  proof (cases "i < size_l l \<and> f (arr l ! unat i) key = 0")
    case True
    with "1.IH" show ?thesis
      by (subst (1 2) remove_first_loop.simps) simp
  next
    case False
    then show ?thesis
      by (subst (1 2) remove_first_loop.simps) auto
  qed
qed

lemma delete_ptr_loop_removals: "removals l (fst (delete_ptr_loop key l i))"
proof (induction key l i rule: delete_ptr_loop.induct)
  case (1 key l i)
  show ?case
  proof (cases "i < size_l l")
    case False
    then show ?thesis
      by (subst delete_ptr_loop.simps) (simp add: removals.none)
  next
    case inside: True
    obtain l' v where d: "list_node_destroy l i = (l', v)"
      by (cases "list_node_destroy l i")
    show ?thesis
    proof (cases "arr l ! unat i = key")
      case False
      with inside "1.IH"(2) show ?thesis
        by (subst delete_ptr_loop.simps) simp
    next
      case True
      show ?thesis
      proof (cases "v = NULL")
        case True
        with inside \<open>arr l ! unat i = key\<close> d "1.IH"(1) [of l' v]
        have "removals l' (fst (delete_ptr_loop key l' i))"
          by simp
        with inside d have "removals l (fst (delete_ptr_loop key l' i))"
          using removals.step [of i l] by simp
        with inside \<open>arr l ! unat i = key\<close> d True show ?thesis
          by (subst delete_ptr_loop.simps) simp
      next
        case False
        from inside d have "removals l l'"
          using removals.step [of i l l'] by (simp add: removals.none)
        with inside \<open>arr l ! unat i = key\<close> d False show ?thesis
          by (subst delete_ptr_loop.simps) simp
      qed
    qed
  qed
qed

lemma delete_all_loop_removals: "removals l (fst (delete_all_loop f key l i n calls))"
proof (induction f key l i n calls rule: delete_all_loop.induct)
  case (1 f key l i n calls)
  show ?case
  proof (cases "i < size_l l")
    case False
    then show ?thesis
      by (subst delete_all_loop.simps) (simp add: removals.none)
  next
    case inside: True
    obtain l' v where d: "list_node_destroy l i = (l', v)"
      by (cases "list_node_destroy l i")
    show ?thesis
    proof (cases "f (arr l ! unat i) key = 0")
      case True
      with inside "1.IH"(3) show ?thesis
        by (subst delete_all_loop.simps) simp
    next
      case match: False
      from inside match d "1.IH"(1) [of l' v] "1.IH"(2) [of l' v]
      have "removals l' (fst (delete_all_loop f key l i n calls))"
        by (subst delete_all_loop.simps) (simp split: if_splits)
      with inside d show ?thesis
        using removals.step [of i l] by simp
    qed
  qed
qed

lemma list_delete_removals:
  "removals l (fst (list_delete_all l f key)) \<and> removals l (fst (list_delete_ptr l key))"
  by (simp add: list_delete_all_def list_delete_ptr_def delete_all_loop_removals
      delete_ptr_loop_removals)

lemma removals_chain_length: "removals l l' \<Longrightarrow> length (iNext l') = length (iNext l)"
  by (induction rule: removals.induct) (simp_all add: destroy_iNext)

text \<open>
  C1. A removal at index \<open>k\<close> of a list (an index below the size, so that an element is
  removed) treats every iterator of the chain as follows. If its next index \<open>pos\<close> is
  \<open>k + 1\<close>, both indices become \<open>k\<close>. Otherwise, if its last yielded index \<open>prev\<close> is
  \<open>k + 1\<close>, that index becomes \<open>k\<close> and \<open>pos\<close> stays. An iterator with both indices
  strictly below \<open>k\<close> is unchanged. The chain keeps its length.
\<close>

theorem removal_repairs_iterators:
  assumes rem: "list_node_destroy l k = (l', v)"
    and k: "k < size_l l"
    and j: "j < length (iNext l)"
  shows "length (iNext l') = length (iNext l) \<and>
    (pos (iNext l ! j) = k + 1 \<longrightarrow>
       pos (iNext l' ! j) = k \<and> prev (iNext l' ! j) = k) \<and>
    (pos (iNext l ! j) \<noteq> k + 1 \<and> prev (iNext l ! j) = k + 1 \<longrightarrow>
       prev (iNext l' ! j) = k \<and> pos (iNext l' ! j) = pos (iNext l ! j)) \<and>
    (pos (iNext l ! j) < k \<and> prev (iNext l ! j) < k \<longrightarrow>
       iNext l' ! j = iNext l ! j)"
proof -
  from rem k have its: "iNext l' = map (destroy_fix k) (iNext l)"
    using destroy_iNext [of k l] by simp
  then have len: "length (iNext l') = length (iNext l)"
    by simp
  from its j have at: "iNext l' ! j = destroy_fix k (iNext l ! j)"
    by simp
  have before: "iNext l' ! j = iNext l ! j"
    if "pos (iNext l ! j) < k" and "prev (iNext l ! j) < k"
    using that word_below_not_succ [OF k] at by (simp add: destroy_fix_def)
  show ?thesis
    using len at before by (simp add: destroy_fix_def)
qed

lemma abc_destroy:
  "list_node_destroy abc_list 1 =
     (\<lparr>arr = [10, 30, 30, NULL],
        iNext = [\<lparr>pos = 1, prev = 1\<rparr>, \<lparr>pos = 3, prev = 1\<rparr>, \<lparr>pos = 0, prev = 0\<rparr>],
        fDel = NULL, size_l = 2, capacity = 4\<rparr>, 20)"
  by (simp add: abc_list_def list_node_destroy_def memmove_def destroy_fix_def word_le_nat_alt)

text \<open>
  The three cases at work: removing index 1 of \<open>[10, 20, 30]\<close> snaps the iterator with
  \<open>pos = 2\<close> back to 1, lowers the last yielded index 2 of the second iterator to 1, and
  leaves the fresh iterator alone.
\<close>

theorem removal_repairs_iterators_witness:
  "pos (iNext (fst (list_node_destroy abc_list 1)) ! 0) = 1 \<and>
   prev (iNext (fst (list_node_destroy abc_list 1)) ! 0) = 1 \<and>
   prev (iNext (fst (list_node_destroy abc_list 1)) ! 1) = 1 \<and>
   pos (iNext (fst (list_node_destroy abc_list 1)) ! 1) = 3 \<and>
   length (iNext (fst (list_node_destroy abc_list 1))) = 3"
proof -
  let ?l' = "fst (list_node_destroy abc_list 1)"
  have rem: "list_node_destroy abc_list 1 = (?l', 20)"
    by (simp add: abc_destroy)
  have k: "1 < size_l abc_list"
    by (simp add: abc_list_def word_less_nat_alt)
  have j0: "0 < length (iNext abc_list)" and j1: "1 < length (iNext abc_list)"
    by (simp_all add: abc_list_def)
  have p0: "pos (iNext abc_list ! 0) = 1 + 1"
    by (simp add: abc_list_def)
  have p1: "pos (iNext abc_list ! 1) \<noteq> 1 + 1 \<and> prev (iNext abc_list ! 1) = 1 + 1"
    by (simp add: abc_list_def)
  have len: "length (iNext abc_list) = 3" and ps: "pos (iNext abc_list ! 1) = 3"
    by (simp_all add: abc_list_def)
  from removal_repairs_iterators [OF rem k j0] p0
  have a: "pos (iNext ?l' ! 0) = 1 \<and> prev (iNext ?l' ! 0) = 1
      \<and> length (iNext ?l') = length (iNext abc_list)"
    by blast
  from removal_repairs_iterators [OF rem k j1] p1
  have b: "prev (iNext ?l' ! 1) = 1 \<and> pos (iNext ?l' ! 1) = pos (iNext abc_list ! 1)"
    by blast
  from a b len ps show ?thesis
    by simp
qed

section \<open>The element count\<close>

text \<open>
  C10. \<^verbatim>\<open>list_count\<close> of the \<^verbatim>\<open>NULL\<close> list is 0, with no error. Of a list it is the
  \<^verbatim>\<open>size\<close> field, the number of occupied slots, converted to \<^verbatim>\<open>int\<close>: for a well-formed
  list of fewer than \<open>2^31\<close> elements the \<^verbatim>\<open>int\<close> returned is the length of the element
  sequence.
\<close>

theorem list_count_null_and_size:
  "list_count None = 0 \<and>
   list_count (Some l) = size_l l \<and>
   (list_ok l \<and> unat (size_l l) < 2 ^ 31 \<longrightarrow>
      sint (list_count (Some l)) = int (length (elements l)))"
proof -
  have "sint (size_l l) = int (length (elements l))"
    if ok: "list_ok l" and small: "unat (size_l l) < 2 ^ 31"
  proof -
    from ok have "length (elements l) = unat (size_l l)"
      by (simp add: elements_def list_ok_def)
    with sint_small [OF small] show ?thesis
      by simp
  qed
  then show ?thesis
    by (simp add: list_count_def)
qed

theorem list_count_null_and_size_witness:
  "list_count None = 0 \<and> list_count (Some abc_list) = 3 \<and>
   list_ok abc_list \<and> unat (size_l abc_list) < 2 ^ 31 \<and>
   sint (list_count (Some abc_list)) = int (length (elements abc_list))"
proof -
  have ok: "list_ok abc_list"
    by (simp add: list_ok_def abc_list_def)
  have small: "unat (size_l abc_list) < 2 ^ 31"
    by (simp add: abc_list_def)
  have sz: "size_l abc_list = 3"
    by (simp add: abc_list_def)
  from list_count_null_and_size [of abc_list] ok small
  have c: "list_count None = 0 \<and> list_count (Some abc_list) = size_l abc_list \<and>
      sint (list_count (Some abc_list)) = int (length (elements abc_list))"
    by blast
  from c [unfolded sz] ok small show ?thesis
    by blast
qed

section \<open>Insertion and the iterators\<close>

lemma create_fix_at:
  "pos (create_fix p i) = (if pos i = p then p + 1 else pos i) \<and>
   prev (create_fix p i) = (if prev i = p then p + 1 else prev i)"
  by (simp add: create_fix_def Let_def)

lemma next_locked_exhausted:
  "pos i = size_l l \<Longrightarrow> snd (list_next_locked l i) = NULL"
  by (simp add: list_next_locked_def Let_def)


lemma list_next_snd: "snd (list_next l j) = snd (list_next_locked l (iNext l ! j))"
  by (simp add: list_next_def Let_def split: prod.splits)






text \<open>
  Both outcomes on the full list \<open>[10]\<close>: under the granting allocator the block grows,
  5 is prepended, the iterator moves to 1 and then yields 10; under the refusing
  allocator \<^verbatim>\<open>list_push\<close> returns \<^verbatim>\<open>NULL\<close> and the iterator stays at 0.
\<close>

lemma full_prepend_granted:
  "list_prepend al_all full_list 5 =
     (\<lparr>arr = [5, 10], iNext = [\<lparr>pos = 1, prev = 1\<rparr>], fDel = NULL,
        size_l = 2, capacity = 2\<rparr>, 5)"
  by code_simp




text \<open>
  C3, as the code has it. An exhausted iterator (\<open>pos\<close> equal to the size) of a list on
  which \<^verbatim>\<open>list_append\<close> succeeds is moved along with the size: the insertion index is the
  old size, the repair loop of \<^verbatim>\<open>_list_node_create\<close> bumps every \<open>pos\<close> equal to it, and so
  \<open>pos\<close> equals the new size. The iterator stays exhausted and its next advance yields
  \<^verbatim>\<open>NULL\<close>, not the appended handle.
\<close>

theorem append_keeps_iterator_exhausted:
  assumes app: "list_append al l h = (l', v)" and v: "v \<noteq> NULL"
    and j: "j < length (iNext l)"
    and ex: "pos (iNext l ! j) = size_l l"
  shows "pos (iNext l' ! j) = size_l l' \<and> snd (list_next l' j) = NULL"
proof -
  from app have c: "list_node_create al l (size_l l) h = (l', v)"
    by (simp add: list_append_def list_append_locked_def)
  from node_create_success [OF c v]
  have its: "iNext l' = map (create_fix (size_l l)) (iNext l)"
    and sz: "size_l l' = 1 + size_l l"
    by simp_all
  from its j have "iNext l' ! j = create_fix (size_l l) (iNext l ! j)"
    by simp
  with ex create_fix_at [of "size_l l" "iNext l ! j"] sz
  have p: "pos (iNext l' ! j) = size_l l'"
    by simp
  then have "snd (list_next_locked l' (iNext l' ! j)) = NULL"
    by (rule next_locked_exhausted)
  with p show ?thesis
    by (simp add: list_next_snd)
qed

lemma abc_append:
  "list_append al_all abc_list 40 =
     (\<lparr>arr = [10, 20, 30, 40],
        iNext = [\<lparr>pos = 2, prev = 1\<rparr>, \<lparr>pos = 4, prev = 2\<rparr>, \<lparr>pos = 0, prev = 0\<rparr>],
        fDel = NULL, size_l = 4, capacity = 4\<rparr>, 40)"
  by (simp add: list_append_def list_append_locked_def list_node_create_def list_grow_def
      abc_list_def memmove_def create_fix_def Let_def)

theorem append_keeps_iterator_exhausted_witness:
  "pos (iNext (fst (list_append al_all abc_list 40)) ! 1) = 4 \<and>
   snd (list_next (fst (list_append al_all abc_list 40)) 1) = NULL"
proof -
  let ?l' = "fst (list_append al_all abc_list 40)"
  have app: "list_append al_all abc_list 40 = (?l', 40)"
    by (simp add: abc_append)
  have v: "(40::nat) \<noteq> NULL"
    by simp
  have j: "1 < length (iNext abc_list)"
    by (simp add: abc_list_def)
  have ex: "pos (iNext abc_list ! 1) = size_l abc_list"
    by (simp add: abc_list_def)
  have sz: "size_l ?l' = 4"
    by (simp add: abc_append)
  from append_keeps_iterator_exhausted [OF app v j ex] show ?thesis
    by (simp only: sz) 
qed

text \<open>
  The claim that the iterator yields the appended handle fails on \<open>[10, 20, 30]\<close>: the
  iterator that has yielded all three elements is exhausted, appending 40 succeeds, and
  the next advance yields \<^verbatim>\<open>NULL\<close>.
\<close>

theorem exhausted_iterator_misses_append:
  "pos (iNext abc_list ! 1) = size_l abc_list \<and>
   snd (list_append al_all abc_list 40) = 40 \<and>
   snd (list_next (fst (list_append al_all abc_list 40)) 1) = NULL \<and>
   snd (list_next (fst (list_append al_all abc_list 40)) 1) \<noteq> 40"
  by (simp add: abc_append list_next_def list_next_locked_def) (simp add: abc_list_def)

section \<open>Sort and flip\<close>

lemma reset_all_nth:
  "j < length is \<Longrightarrow> pos (reset_all is ! j) = 0 \<and> prev (reset_all is ! j) = 0"
  by (simp add: reset_all_def)

text \<open>
  C7, as the code has it. On a list of more than one element \<^verbatim>\<open>list_sort\<close> and
  \<^verbatim>\<open>list_flip\<close> set both indices of every iterator to 0, whatever they were and whatever
  the comparator and \<^verbatim>\<open>qsort\<close> do. On a list of at most one element both return at once
  and leave the list and its iterators as they are.
\<close>

theorem sort_flip_reset_above_one:
  "(1 < size_l l \<and> j < length (iNext l) \<longrightarrow>
      pos (iNext (list_sort qs l f) ! j) = 0 \<and> prev (iNext (list_sort qs l f) ! j) = 0 \<and>
      pos (iNext (list_flip l) ! j) = 0 \<and> prev (iNext (list_flip l) ! j) = 0) \<and>
   (size_l l \<le> 1 \<longrightarrow> list_sort qs l f = l \<and> list_flip l = l)"
proof -
  have big: "iNext (list_sort qs l f) = reset_all (iNext l) \<and>
      iNext (list_flip l) = reset_all (iNext l)" if "1 < size_l l"
  proof -
    from that have "\<not> size_l l \<le> 1"
      by simp
    then show ?thesis
      by (simp add: list_sort_def list_flip_def)
  qed
  have small: "list_sort qs l f = l \<and> list_flip l = l" if "size_l l \<le> 1"
    using that by (simp add: list_sort_def list_flip_def)
  from big small reset_all_nth [of j "iNext l"] show ?thesis
    by auto
qed

theorem sort_flip_reset_above_one_witness:
  "pos (iNext (list_sort qs_id abc_list cmp_zero) ! 1) = 0 \<and>
   prev (iNext (list_sort qs_id abc_list cmp_zero) ! 1) = 0 \<and>
   pos (iNext (list_flip abc_list) ! 1) = 0 \<and>
   prev (iNext (list_flip abc_list) ! 1) = 0 \<and>
   list_sort qs_id one_list cmp_zero = one_list \<and> list_flip one_list = one_list"
proof -
  have big: "1 < size_l abc_list \<and> 1 < length (iNext abc_list)"
    by (simp add: abc_list_def word_less_nat_alt)
  have small: "size_l one_list \<le> 1"
    by (simp add: one_list_def)
  from sort_flip_reset_above_one [of abc_list 1 qs_id cmp_zero] big
    sort_flip_reset_above_one [of one_list 0 qs_id cmp_zero] small
  show ?thesis
    by blast
qed

text \<open>
  The claim that the reset happens regardless of the size fails on a list of one element:
  its iterator has \<open>pos = 1\<close> before and after \<^verbatim>\<open>list_sort\<close> and \<^verbatim>\<open>list_flip\<close>.
\<close>

theorem sort_flip_keep_iterator_of_singleton:
  "pos (iNext one_list ! 0) = 1 \<and>
   pos (iNext (list_sort qs_id one_list cmp_zero) ! 0) = 1 \<and>
   pos (iNext (list_flip one_list) ! 0) = 1 \<and>
   pos (iNext (list_sort qs_id one_list cmp_zero) ! 0) \<noteq> 0 \<and>
   pos (iNext (list_flip one_list) ! 0) \<noteq> 0"
  by (simp add: list_sort_def list_flip_def one_list_def)

section \<open>The bounds of the iterator indices\<close>

lemma create_fix_ok:
  assumes inv: "prev i \<le> pos i" "pos i \<le> s" and p: "p \<le> s" and small: "unat (s::uint) < 2 ^ 31"
  shows "prev (create_fix p i) \<le> pos (create_fix p i) \<and> pos (create_fix p i) \<le> 1 + s"
proof -
  from p small have "unat p < 2 ^ 31"
    by (simp add: word_le_nat_alt)
  then have up: "unat (p + 1) = Suc (unat p)"
    using unat_succ_small [of p] by (simp add: add.commute)
  have us: "unat (1 + s) = Suc (unat s)"
    by (rule unat_succ_small [OF small])
  from inv p up us show ?thesis
    by (auto simp: create_fix_at word_le_nat_alt word_unat_eq_iff)
qed

lemma destroy_fix_ok:
  assumes inv: "prev i \<le> pos i" "pos i \<le> s" and k: "k < (s::uint)"
  shows "prev (destroy_fix k i) \<le> pos (destroy_fix k i) \<and>
     (pos i = k + 1 \<or> pos i < s \<longrightarrow> unat (pos (destroy_fix k i)) \<le> unat s - 1) \<and>
     (pos i = s \<and> pos i \<noteq> k + 1 \<longrightarrow> unat s - 1 < unat (pos (destroy_fix k i)))"
proof -
  have uk: "unat (k + 1) = Suc (unat k)"
    by (rule word_inc_unat [OF k])
  from inv k uk show ?thesis
    by (auto simp: destroy_fix_def word_le_nat_alt word_less_nat_alt word_unat_eq_iff)
qed

lemma create_keeps_iter_ok:
  assumes inv: "iter_ok l j" and small: "unat (size_l l) < 2 ^ 31"
  shows "iter_ok (fst (list_node_create al l p x)) j"
proof -
  obtain l1 rc where g: "list_grow al l = (l1, rc)"
    by (cases "list_grow al l")
  from inv have j: "j < length (iNext l)" and pp: "prev (iNext l ! j) \<le> pos (iNext l ! j)"
    and ps: "pos (iNext l ! j) \<le> size_l l"
    by (simp_all add: iter_ok_def)
  have us: "unat (1 + size_l l) = Suc (unat (size_l l))"
    by (rule unat_succ_small [OF small])
  then have grow: "size_l l \<le> 1 + size_l l"
    by (simp add: word_le_nat_alt)
  consider (range) "size_l l < p" | (fail) "p \<le> size_l l" "sint rc < 0"
    | (ins) "p \<le> size_l l" "\<not> sint rc < 0"
    by fastforce
  then show ?thesis
  proof cases
    case range
    with inv show ?thesis
      by (simp add: list_node_create_def)
  next
    case fail
    then have "fst (list_node_create al l p x) = l1"
      by (simp add: list_node_create_def g not_less [symmetric] del: not_less)
    moreover from grow_fail_size [OF g fail(2)] ps grow have "pos (iNext l ! j) \<le> size_l l1"
      by auto
    ultimately show ?thesis
      using j pp grow_fields [OF g] by (simp add: iter_ok_def)
  next
    case ins
    obtain l' v where c: "list_node_create al l p x = (l', v)"
      by (cases "list_node_create al l p x")
    from ins(1) have np: "\<not> size_l l < p"
      by simp
    from np ins(2) g c have its: "iNext l' = map (create_fix p) (iNext l1)"
      and sz: "size_l l' = size_l l1"
      by (auto simp: list_node_create_def Let_def)
    from grow_fields [OF g] grow_size [OF g ins(2)] its sz
    have its': "iNext l' = map (create_fix p) (iNext l)" and sz': "size_l l' = 1 + size_l l"
      by simp_all
    from create_fix_ok [OF pp ps ins(1) small] j show ?thesis
      by (simp add: iter_ok_def c its' sz')
  qed
qed

lemma destroy_keeps_iter_ok:
  assumes inv: "iter_ok l j" and small: "unat (size_l l) < 2 ^ 31"
  shows "iter_ok (fst (list_node_destroy l k)) j \<longleftrightarrow>
     size_l l \<le> k \<or> pos (iNext l ! j) = k + 1 \<or> pos (iNext l ! j) < size_l l"
    and "prev (iNext (fst (list_node_destroy l k)) ! j)
       \<le> pos (iNext (fst (list_node_destroy l k)) ! j)"
proof -
  let ?l' = "fst (list_node_destroy l k)"
  from inv have j: "j < length (iNext l)" and pp: "prev (iNext l ! j) \<le> pos (iNext l ! j)"
    and ps: "pos (iNext l ! j) \<le> size_l l"
    by (simp_all add: iter_ok_def)
  have both: "(iter_ok ?l' j \<longleftrightarrow>
       size_l l \<le> k \<or> pos (iNext l ! j) = k + 1 \<or> pos (iNext l ! j) < size_l l) \<and>
     prev (iNext ?l' ! j) \<le> pos (iNext ?l' ! j)"
  proof (cases "k < size_l l")
    case False
    then have "?l' = l"
      by (simp add: list_node_destroy_def)
    with False inv show ?thesis
      by (auto simp: iter_ok_def not_less)
  next
    case True
    from destroy_iNext [OF True] j
    have at: "iNext ?l' ! j = destroy_fix k (iNext l ! j)" and len: "j < length (iNext ?l')"
      by simp_all
    note sz = destroy_size_small [OF True small]
    from ps have cases: "pos (iNext l ! j) < size_l l \<or> pos (iNext l ! j) = size_l l"
      by auto
    from destroy_fix_ok [OF pp ps True] cases True len sz show ?thesis
      by (auto simp: iter_ok_def at word_le_nat_alt word_less_nat_alt)
  qed
  from both show "iter_ok ?l' j \<longleftrightarrow>
     size_l l \<le> k \<or> pos (iNext l ! j) = k + 1 \<or> pos (iNext l ! j) < size_l l"
    by simp
  from both show "prev (iNext ?l' ! j) \<le> pos (iNext ?l' ! j)"
    by simp
qed

lemma reset_keeps_iter_ok:
  "j < length (iNext l) \<Longrightarrow> iter_ok (l\<lparr>iNext := reset_all (iNext l)\<rparr>) j"
  by (simp add: iter_ok_def reset_all_def)

lemma flush_fst:
  "fst (list_flush l) = l\<lparr>size_l := 0, iNext := reset_all (iNext l)\<rparr>"
  by (simp add: list_flush_def Let_def split_def)

lemma create_fix_order:
  assumes ord: "prev i \<le> pos i" and p: "unat (p::uint) < 2 ^ 31"
  shows "prev (create_fix p i) \<le> pos (create_fix p i)"
proof -
  have up: "unat (p + 1) = Suc (unat p)"
    using unat_succ_small [OF p] by (simp add: add.commute)
  from ord up show ?thesis
    by (auto simp: create_fix_at word_le_nat_alt word_unat_eq_iff)
qed

lemma destroy_fix_order:
  assumes ord: "prev i \<le> pos i" and k: "k < (s::uint)"
  shows "prev (destroy_fix k i) \<le> pos (destroy_fix k i)"
proof -
  have uk: "unat (k + 1) = Suc (unat k)"
    by (rule word_inc_unat [OF k])
  from ord uk show ?thesis
    by (auto simp: destroy_fix_def word_le_nat_alt word_unat_eq_iff)
qed

lemma mutations_keep_order:
  assumes j: "j < length (iNext l)" and ord: "prev (iNext l ! j) \<le> pos (iNext l ! j)"
    and small: "unat (size_l l) < 2 ^ 31"
  shows "prev (iNext (fst (list_node_create al l p x)) ! j)
       \<le> pos (iNext (fst (list_node_create al l p x)) ! j) \<and>
     prev (iNext (fst (list_node_destroy l k)) ! j)
       \<le> pos (iNext (fst (list_node_destroy l k)) ! j) \<and>
     prev (iNext (fst (list_flush l)) ! j) \<le> pos (iNext (fst (list_flush l)) ! j) \<and>
     prev (iNext (list_sort qs l f) ! j) \<le> pos (iNext (list_sort qs l f) ! j) \<and>
     prev (iNext (list_flip l) ! j) \<le> pos (iNext (list_flip l) ! j)"
proof -
  have ins: "prev (iNext (fst (list_node_create al l p x)) ! j)
       \<le> pos (iNext (fst (list_node_create al l p x)) ! j)"
  proof -
    obtain l1 rc where g: "list_grow al l = (l1, rc)"
      by (cases "list_grow al l")
    show ?thesis
    proof (cases "size_l l < p \<or> sint rc < 0")
      case True
      then have "fst (list_node_create al l p x) = l \<or> fst (list_node_create al l p x) = l1"
        by (auto simp: list_node_create_def g)
      with grow_fields [OF g] ord show ?thesis
        by auto
    next
      case False
      then have "iNext (fst (list_node_create al l p x)) = map (create_fix p) (iNext l1)"
        by (simp add: list_node_create_def g Let_def)
      with grow_fields [OF g] j
      have at: "iNext (fst (list_node_create al l p x)) ! j = create_fix p (iNext l ! j)"
        by simp
      from False small have "unat p < 2 ^ 31"
        by (simp add: not_less word_le_nat_alt)
      from create_fix_order [OF ord this] show ?thesis
        by (simp add: at)
    qed
  qed
  have rem: "prev (iNext (fst (list_node_destroy l k)) ! j)
       \<le> pos (iNext (fst (list_node_destroy l k)) ! j)"
  proof (cases "k < size_l l")
    case True
    from destroy_iNext [OF True] j destroy_fix_order [OF ord True] show ?thesis
      by simp
  next
    case False
    then have "fst (list_node_destroy l k) = l"
      by (simp add: list_node_destroy_def)
    with ord show ?thesis
      by simp
  qed
  have flush: "prev (iNext (fst (list_flush l)) ! j) \<le> pos (iNext (fst (list_flush l)) ! j)"
    using j by (simp add: flush_fst reset_all_def)
  have sort: "prev (iNext (list_sort qs l f) ! j) \<le> pos (iNext (list_sort qs l f) ! j)"
    using j ord by (simp add: list_sort_def reset_all_def)
  have flip: "prev (iNext (list_flip l) ! j) \<le> pos (iNext (list_flip l) ! j)"
    using j ord by (simp add: list_flip_def reset_all_def)
  from ins rem flush sort flip show ?thesis
    by blast
qed

lemma mutations_keep_bounds:
  assumes inv: "iter_ok l j" and small: "unat (size_l l) < 2 ^ 31"
  shows "iter_ok (fst (list_node_create al l p x)) j \<and>
     iter_ok (fst (list_flush l)) j \<and>
     iter_ok (list_sort qs l f) j \<and>
     iter_ok (list_flip l) j"
proof -
  from inv have j: "j < length (iNext l)"
    by (simp add: iter_ok_def)
  have ins: "iter_ok (fst (list_node_create al l p x)) j"
    by (rule create_keeps_iter_ok [OF inv small])
  have flush: "iter_ok (fst (list_flush l)) j"
    using j by (simp add: flush_fst iter_ok_def reset_all_def)
  have sort: "iter_ok (list_sort qs l f) j"
    using inv j by (simp add: list_sort_def iter_ok_def reset_all_def)
  have flip: "iter_ok (list_flip l) j"
    using inv j by (simp add: list_flip_def iter_ok_def reset_all_def)
  from ins flush sort flip show ?thesis
    by blast
qed

lemma abc_dequeue:
  "list_node_destroy abc_list 0 =
     (\<lparr>arr = [20, 30, 30, NULL],
        iNext = [\<lparr>pos = 2, prev = 0\<rparr>, \<lparr>pos = 3, prev = 2\<rparr>, \<lparr>pos = 0, prev = 0\<rparr>],
        fDel = NULL, size_l = 2, capacity = 4\<rparr>, 10)"
  by (simp add: abc_list_def list_node_destroy_def memmove_def destroy_fix_def word_le_nat_alt)

text \<open>
  One removal in front of an exhausted iterator is enough: on \<open>[10, 20, 30]\<close> the
  iterator with \<open>pos = 3\<close> satisfies the bounds, and after the removal of index 0 the
  size is 2 while its \<open>pos\<close> is still 3.
\<close>

theorem removal_leaves_iterator_past_size:
  "iter_ok abc_list 1 \<and>
   size_l (fst (list_node_destroy abc_list 0)) = 2 \<and>
   pos (iNext (fst (list_node_destroy abc_list 0)) ! 1) = 3 \<and>
   \<not> iter_ok (fst (list_node_destroy abc_list 0)) 1"
  by (simp add: abc_dequeue iter_ok_def word_le_nat_alt) (simp add: abc_list_def)

text \<open>
  C4. Every mutation keeps \<open>prev \<le> pos\<close> (lemma \<open>mutations_keep_order\<close>), and
  insertion, flush, sort and flip keep both indices within the size (lemma
  \<open>mutations_keep_bounds\<close>). A removal does not: the repair loop of
  \<^verbatim>\<open>_list_node_destroy\<close> moves the indices equal to \<open>k + 1\<close> and no index beyond. After
  an iterator has walked \<open>[10, 20, 30, 40]\<close> to the end and the list was popped twice,
  the size is 2 and the iterator still has \<open>pos = 4\<close> and \<open>prev = 3\<close>, both above
  the size; \<^verbatim>\<open>list_remove\<close> then hands index 3 to \<^verbatim>\<open>_list_node_destroy\<close>, outside the
  range its \<^verbatim>\<open>xassert(p <= l->size)\<close> states, and returns \<^verbatim>\<open>NULL\<close> although the element
  yielded last, 40, is still in the list.
\<close>

theorem pops_leave_iterator_past_size:
  "elements walked_list = [10, 20, 30, 40] \<and>
   iNext walked_list = [\<lparr>pos = 4, prev = 3\<rparr>] \<and>
   iter_ok walked_list 0 \<and>
   elements popped_list = [30, 40] \<and>
   size_l popped_list = 2 \<and>
   iNext popped_list = [\<lparr>pos = 4, prev = 3\<rparr>] \<and>
   \<not> pos (iNext popped_list ! 0) \<le> size_l popped_list \<and>
   \<not> prev (iNext popped_list ! 0) \<le> size_l popped_list \<and>
   \<not> iter_ok popped_list 0 \<and>
   list_remove popped_list 0 = (popped_list, NULL)"
  by code_simp

section \<open>Transfer between lists\<close>

text \<open>
  Under an allocator that grants every request, with well-formed lists that stay far
  below \<open>2^31\<close> elements and a source without \<^verbatim>\<open>NULL\<close> elements, the transfer loop moves
  the first \<open>moved sub max n\<close> elements of the source to the tail of the destination in
  order and adds their number to the count. Started at 0 with a positive \<open>max\<close> that is
  \<open>max + 1\<close> elements, or all of them when the source holds fewer.
\<close>

lemma append_granted:
  assumes al: "\<And>n. al n" and ok: "list_ok l" and cap: "unat (capacity l) < 2 ^ 30"
    and x: "x \<noteq> NULL"
  shows "snd (list_append al l x) = x \<and> list_ok (fst (list_append al l x)) \<and>
     elements (fst (list_append al l x)) = elements l @ [x] \<and>
     unat (size_l (fst (list_append al l x))) = Suc (unat (size_l l)) \<and>
     unat (capacity (fst (list_append al l x)))
       \<le> max (unat (capacity l)) (max 1 (2 * unat (size_l l)))"
proof -
  obtain l1 rc where g: "list_grow al l = (l1, rc)"
    by (cases "list_grow al l")
  obtain l' v where c: "list_node_create al l (size_l l) x = (l', v)"
    by (cases "list_node_create al l (size_l l) x")
  from grow_granted [OF g al ok cap] have rc: "\<not> sint rc < 0"
    and capg: "unat (capacity l1) \<le> max (unat (capacity l)) (max 1 (2 * unat (size_l l)))"
    by simp_all
  from c g rc have vx: "v = x" and cap': "capacity l' = capacity l1"
    by (auto simp: list_node_create_def Let_def)
  with x have v: "v \<noteq> NULL"
    by simp
  from ok cap have small: "unat (size_l l) < 2 ^ 31"
    by (simp add: list_ok_def)
  from ok have len: "length (elements l) = unat (size_l l)"
    by (simp add: elements_def list_ok_def)
  from node_create_elements [OF c v ok small] len
  have ok': "list_ok l'" and els: "elements l' = elements l @ [x]"
    by simp_all
  from node_create_success [OF c v] unat_succ_small [OF small]
  have sz: "unat (size_l l') = Suc (unat (size_l l))"
    by simp
  from vx ok' els sz capg cap' show ?thesis
    by (simp add: list_append_def list_append_locked_def c)
qed

lemma pop_front:
  assumes ok: "list_ok l" and small: "unat (size_l l) < 2 ^ 31" and ne: "size_l l \<noteq> 0"
  shows "snd (list_pop l) = hd (elements l) \<and> list_ok (fst (list_pop l)) \<and>
     elements (fst (list_pop l)) = tl (elements l) \<and>
     unat (size_l (fst (list_pop l))) = unat (size_l l) - 1"
proof -
  obtain l' v where d: "list_node_destroy l 0 = (l', v)"
    by (cases "list_node_destroy l 0")
  from ne have p: "0 < size_l l"
    by (simp add: word_gt_0)
  from ok ne have "elements l \<noteq> []"
    by (auto simp: elements_def list_ok_def unat_eq_zero)
  with node_destroy_elements [OF d p ok small] show ?thesis
    by (simp add: list_pop_destroy d hd_conv_nth drop_Suc)
qed

lemma sint_succ: "sint (n::cint) < 2 ^ 31 - 1 \<Longrightarrow> sint (n + 1) = sint n + 1"
proof -
  assume a: "sint n < 2 ^ 31 - 1"
  have lo: "- (2 ^ 31) \<le> sint n"
    using sint_ge [of n] by simp
  from a lo have "signed_take_bit 31 (sint n + 1) = sint n + 1"
    by (intro signed_take_bit_int_eq_self) simp_all
  then show ?thesis
    by (simp add: sint_word_ariths)
qed

lemma transfer_loop_moves:
  assumes al: "\<And>n. al n"
    and okl: "list_ok l" and oks: "list_ok sub"
    and cap: "unat (capacity l) < 2 ^ 30"
    and tot: "unat (size_l l) + unat (size_l sub) < 2 ^ 29"
    and nn: "NULL \<notin> set (elements sub)"
    and mx: "0 < sint max_n" "sint max_n < 2 ^ 31 - 1"
    and n: "sint n \<le> sint max_n + 1"
  shows "elements (fst (transfer_loop al l sub max_n n)) =
       elements l @ take (moved sub max_n n) (elements sub) \<and>
     elements (fst (snd (transfer_loop al l sub max_n n))) =
       drop (moved sub max_n n) (elements sub) \<and>
     sint (snd (snd (transfer_loop al l sub max_n n))) = sint n + int (moved sub max_n n)"
  using okl oks cap tot nn n mx al
proof (induction al l sub max_n n rule: transfer_loop.induct)
  case (1 al l sub max_n n)
  note okl = "1.prems"(1) and oks = "1.prems"(2) and cap = "1.prems"(3)
    and tot = "1.prems"(4) and nn = "1.prems"(5) and n = "1.prems"(6)
    and mx = "1.prems"(7,8) and al = "1.prems"(9)
  have m0: "max_n \<noteq> 0"
  proof
    assume "max_n = 0"
    with mx(1) show False
      by simp
  qed
  show ?case
  proof (cases "sint n \<le> sint max_n")
    case False
    with n have "moved sub max_n n = 0"
      by (simp add: moved_def)
    with False m0 show ?thesis
      by (subst (1 2 3) transfer_loop.simps) simp
  next
    case run: True
    show ?thesis
    proof (cases "size_l sub = 0")
      case True
      then have pop: "list_pop sub = (sub, NULL)"
        by (simp add: list_pop_destroy list_node_destroy_def)
      from True oks have "elements sub = []"
        by (simp add: elements_def)
      then have "moved sub max_n n = 0"
        by (simp add: moved_def)
      with run pop show ?thesis
        by (subst (1 2 3) transfer_loop.simps) simp
    next
      case False
      obtain sub' v where pop: "list_pop sub = (sub', v)"
        by (cases "list_pop sub")
      from tot have small: "unat (size_l sub) < 2 ^ 31"
        by simp
      from pop_front [OF oks small False] pop
      have v: "v = hd (elements sub)" and oks': "list_ok sub'"
        and els': "elements sub' = tl (elements sub)"
        and sz': "unat (size_l sub') = unat (size_l sub) - 1"
        by simp_all
      from False oks have ne: "elements sub \<noteq> []"
        by (auto simp: elements_def list_ok_def unat_eq_zero)
      with nn v have vn: "v \<noteq> NULL"
        by (metis hd_in_set)
      from False have pos: "0 < unat (size_l sub)"
        by (simp add: unat_gt_0)
      let ?l1 = "fst (list_append al l v)"
      from append_granted [OF al okl cap vn]
      have okl1: "list_ok ?l1" and els1: "elements ?l1 = elements l @ [v]"
        and sz1: "unat (size_l ?l1) = Suc (unat (size_l l))"
        and cap1: "unat (capacity ?l1) \<le> max (unat (capacity l)) (max 1 (2 * unat (size_l l)))"
        by simp_all
      from cap1 cap tot have cap1': "unat (capacity ?l1) < 2 ^ 30"
        by simp
      from sz1 sz' pos tot have tot1: "unat (size_l ?l1) + unat (size_l sub') < 2 ^ 29"
        by simp
      from nn ne els' have nn1: "NULL \<notin> set (elements sub')"
        by (auto dest: list.set_sel(2))
      from run mx(2) have sn: "sint (n + 1) = sint n + 1"
        by (intro sint_succ) simp
      with run have n1: "sint (n + 1) \<le> sint max_n + 1"
        by simp
      from run pop vn have "max_n = 0 \<or> sint n \<le> sint max_n" and "(sub', v) = list_pop sub"
        by simp_all
      note IH = "1.IH" [OF this vn okl1 oks' cap1' tot1 nn1 n1 mx al]
      from ne run sn els' have mv: "moved sub max_n n = Suc (moved sub' max_n (n + 1))"
        by (cases "elements sub") (auto simp: moved_def min_def nat_diff_distrib Suc_nat_eq_nat_zadd1)
      from ne v have split: "elements sub = v # tl (elements sub)"
        by simp
      have step: "transfer_loop al l sub max_n n = transfer_loop al ?l1 sub' max_n (n + 1)"
        using run pop vn by (subst transfer_loop.simps) simp
      have "take (Suc (moved sub' max_n (n + 1))) (elements sub) =
          v # take (moved sub' max_n (n + 1)) (elements sub')"
        by (subst split) (simp add: els')
      moreover have "drop (Suc (moved sub' max_n (n + 1))) (elements sub) =
          drop (moved sub' max_n (n + 1)) (elements sub')"
        by (subst split) (simp add: els')
      ultimately show ?thesis
        using IH by (simp add: step mv els1 sn)
    qed
  qed
qed

lemma transfer_max_moves:
  assumes al: "\<And>n. al n"
    and okl: "list_ok l" and oks: "list_ok sub"
    and cap: "unat (capacity l) < 2 ^ 30"
    and tot: "unat (size_l l) + unat (size_l sub) < 2 ^ 29"
    and nn: "NULL \<notin> set (elements sub)"
    and mx: "0 < sint max_n" "sint max_n < 2 ^ 31 - 1"
  shows "elements (fst (list_transfer_max al l sub max_n)) =
       elements l @ take (nat (sint max_n) + 1) (elements sub) \<and>
     elements (fst (snd (list_transfer_max al l sub max_n))) =
       drop (nat (sint max_n) + 1) (elements sub) \<and>
     sint (snd (snd (list_transfer_max al l sub max_n))) =
       int (min (length (elements sub)) (nat (sint max_n) + 1))"
proof -
  from mx(1) have n0: "sint (0::cint) \<le> sint max_n + 1"
    by simp
  from mx(1) have mv: "moved sub max_n 0 = min (length (elements sub)) (nat (sint max_n) + 1)"
    by (simp add: moved_def nat_add_distrib)
  from transfer_loop_moves [OF al okl oks cap tot nn mx n0] show ?thesis
    by (simp add: list_transfer_max_def mv min_def)
qed

text \<open>
  C2. The loop of \<^verbatim>\<open>list_transfer_max\<close> runs while \<^verbatim>\<open>n <= max\<close>, so it pops one element
  more than \<open>max\<close> (lemma \<open>transfer_max_moves\<close>): with the source \<open>[1, 2, 3]\<close> and
  \<open>max = 2\<close> all three elements arrive in the destination in order, the source is left
  empty and the count returned is 3.
\<close>

theorem transfer_max_moves_one_too_many:
  "elements xyz_list = [1, 2, 3] \<and>
   list_transfer_max al_all (list_create NULL) xyz_list 2 =
     (\<lparr>arr = [1, 2, 3, NULL], iNext = [], fDel = NULL, size_l = 3, capacity = 4\<rparr>,
      \<lparr>arr = [3, 3, 3, NULL], iNext = [], fDel = NULL, size_l = 0, capacity = 4\<rparr>,
      3) \<and>
   elements (fst (list_transfer_max al_all (list_create NULL) xyz_list 2)) = [1, 2, 3] \<and>
   elements (fst (snd (list_transfer_max al_all (list_create NULL) xyz_list 2))) = []"
  by code_simp

section \<open>Growth refused by the allocator\<close>

text \<open>
  When the list is full and the allocator refuses the larger block, \<^verbatim>\<open>_list_grow\<close> has
  already raised \<^verbatim>\<open>capacity\<close> and stored the \<^verbatim>\<open>NULL\<close> result in \<^verbatim>\<open>arr\<close> when it returns
  \<open>-1\<close>; the insertion returns \<^verbatim>\<open>NULL\<close> on that state.
\<close>

lemma grow_refused:
  assumes full: "size_l l = capacity l" and p: "p \<le> size_l l"
    and no: "\<not> al (unat (capacity l + (if capacity l > 1 then capacity l else 1)))"
  shows "list_node_create al l p x =
     (l\<lparr>capacity := capacity l + (if capacity l > 1 then capacity l else 1), arr := []\<rparr>, NULL)"
proof -
  from p have np: "\<not> size_l l < p"
    by simp
  from full no have "list_grow al l =
      (l\<lparr>capacity := capacity l + (if capacity l > 1 then capacity l else 1), arr := []\<rparr>, - 1)"
    by (simp add: list_grow_def list_realloc_def Let_def)
  with np show ?thesis
    by (simp add: list_node_create_def)
qed

text \<open>
  C5. On the full one-element list \<open>[10]\<close> an append under the refusing allocator
  returns \<^verbatim>\<open>NULL\<close>, and the list it leaves has capacity 2 instead of 1, the array
  pointer \<^verbatim>\<open>NULL\<close>, and size 1: the stored element is gone and the list is not well
  formed.
\<close>

theorem failed_growth_changes_list:
  "list_ok one_list \<and> elements one_list = [10] \<and>
   list_append al_none one_list 20 =
     (\<lparr>arr = [], iNext = [\<lparr>pos = 1, prev = 0\<rparr>], fDel = NULL, size_l = 1, capacity = 2\<rparr>,
      NULL) \<and>
   capacity (fst (list_append al_none one_list 20)) \<noteq> capacity one_list \<and>
   elements (fst (list_append al_none one_list 20)) \<noteq> elements one_list \<and>
   \<not> list_ok (fst (list_append al_none one_list 20))"
  by code_simp

section \<open>Flush\<close>

lemma flush_loop_result:
  "flush_loop xs n calls = (n + of_nat (length xs), calls @ xs)"
  by (induction xs arbitrary: n calls) (simp_all add: add.assoc)

lemma list_flush_effects:
  "elements (fst (list_flush l)) = [] \<and>
   iNext (fst (list_flush l)) = reset_all (iNext l) \<and>
   snd (list_flush l) =
     (if fDel l \<noteq> NULL then (of_nat (length (elements l)), elements l) else (0, []))"
  by (simp add: list_flush_def flush_loop_result elements_def)

lemma list_flush_count_with_destructor:
  assumes "list_ok l" and "fDel l \<noteq> NULL"
  shows "snd (list_flush l) = (size_l l, elements l)"
proof -
  from assms(1) have "length (elements l) = unat (size_l l)"
    by (simp add: elements_def list_ok_def)
  with assms(2) show ?thesis
    by (simp add: list_flush_effects)
qed

text \<open>
  C6. \<^verbatim>\<open>list_flush\<close> empties the list and resets every iterator (lemma
  \<open>list_flush_effects\<close>), and with a destructor it calls it once on each element in order
  and returns their number. Without a destructor the counter is never raised: flushing
  \<open>[10, 20, 30]\<close> removes three elements and returns 0.
\<close>

theorem flush_without_destructor_counts_nothing:
  "fDel abc_list = NULL \<and> elements abc_list = [10, 20, 30] \<and>
   elements (fst (list_flush abc_list)) = [] \<and>
   fst (snd (list_flush abc_list)) = 0"
  by code_simp

section \<open>Shallow copy\<close>

lemma shallow_copy_of_empty:
  "size_l l = 0 \<Longrightarrow> list_shallow_copy al l = None"
  by (simp add: list_shallow_copy_def list_reserve_def list_create_def)

lemma shallow_copy_nonempty:
  assumes ok: "list_ok l" and ne: "size_l l \<noteq> 0" and small: "unat (size_l l) < 2 ^ 31"
    and al: "al (unat (size_l l))"
  shows "\<exists>m. list_shallow_copy al l = Some m \<and> elements m = elements l \<and>
     fDel m = NULL \<and> iNext m = [] \<and> list_ok m"
proof -
  define n where "n = unat (size_l l)"
  from ne have n0: "0 < n"
    by (simp add: n_def unat_gt_0)
  from sint_small [OF small] have si: "sint (size_l l) = int n"
    by (simp only: n_def)
  from ok have len: "n \<le> length (arr l)"
    by (simp add: n_def list_ok_def)
  have res: "list_reserve al (list_create NULL) (size_l l) =
      (\<lparr>arr = replicate n NULL, iNext = [], fDel = NULL, size_l = 0, capacity = size_l l\<rparr>,
       size_l l)"
    using n0 al by (simp add: list_reserve_def list_create_def list_realloc_def si) (simp add: n_def)
  from n0 si have nonneg: "\<not> sint (size_l l) < 0"
    by simp
  have copy: "list_shallow_copy al l =
      Some \<lparr>arr = take n (arr l), iNext = [], fDel = NULL, size_l = size_l l,
        capacity = size_l l\<rparr>"
    using nonneg by (simp add: list_shallow_copy_def res memcpy_def Let_def) (simp add: n_def)
  from len show ?thesis
    by (simp add: copy elements_def list_ok_def n_def)
qed

text \<open>
  C8. The copy of a well-formed list of 1 to \<open>2^31 - 1\<close> elements is a new list with the
  same element sequence, no destructor and no iterators (lemma \<open>shallow_copy_nonempty\<close>).
  For an empty list \<^verbatim>\<open>_list_reserve\<close> is called with \<open>n = 0\<close>, which is not above the
  capacity 0 of the new list; it returns \<open>-1\<close> and \<^verbatim>\<open>list_shallow_copy\<close> returns \<^verbatim>\<open>NULL\<close>
  instead of an empty list.
\<close>

theorem shallow_copy_of_empty_list_fails:
  "list_shallow_copy al_all (list_create NULL) = None \<and>
   list_shallow_copy al_all (fst (list_flush abc_list)) = None"
  by code_simp

end
